theory Spec2Isabelle
  imports Complex_Main "HOL-Library.Multiset" "HOL-Library.AList"
    "HOL-Library.Char_ord" "HOL-Library.List_Lexorder" "HOL-Library.Product_Lexorder"
begin

section \<open>Braille autocorrect: a shallow embedding of braille.py and test2.py\<close>

text \<open>
  Conventions of the embedding.
  \<^item> A Python \<open>str\<close> is a \<open>string\<close>; a \<open>char\<close> stands for the code point of the same
    number (the interface is ASCII; code points up to 255 are covered).
  \<^item> Python's \<open>float\<close> and \<open>int\<close> scores are exact rationals (\<open>rat\<close>): rounding of the
    binary floating-point operations is not modelled.
  \<^item> A raised exception is the \<open>Inl\<close> branch of a sum; a method that touches
    \<open>self\<close> takes the object and returns it updated.
  \<^item> A \<open>dict\<close> that the code iterates over (\<open>TrieNode.children\<close>) is an association
    list in insertion order; the two \<open>defaultdict\<close>s, which are only indexed, are maps.
\<close>

subsection \<open>Strings: \<open>str.split()\<close>, \<open>str.split('+')\<close>, \<open>str.lower()\<close>\<close>

text \<open>The code points below 256 for which \<open>str.isspace\<close> holds.\<close>

definition is_space :: "char \<Rightarrow> bool" where
  "is_space c = (of_char c \<in> {9, 10, 11, 12, 13, 28, 29, 30, 31, 32, 133, 160 :: nat})"

text \<open>\<open>s.split()\<close>: the maximal runs of non-space characters, left to right; \<open>cur\<close> is
  the run being read.\<close>

fun split_ws :: "string \<Rightarrow> string \<Rightarrow> string list" where
  "split_ws cur [] = (if cur = [] then [] else [cur])"
| "split_ws cur (c # cs) =
     (if is_space c then (if cur = [] then split_ws [] cs else cur # split_ws [] cs)
      else split_ws (cur @ [c]) cs)"

definition str_split :: "string \<Rightarrow> string list" where
  "str_split s = split_ws [] s"

text \<open>\<open>s.split(sep)\<close> for a one-character separator: every separator ends a segment,
  empty segments are kept, and the empty string gives one empty segment.\<close>

fun split_on :: "char \<Rightarrow> string \<Rightarrow> string \<Rightarrow> string list" where
  "split_on sep cur [] = [cur]"
| "split_on sep cur (c # cs) =
     (if c = sep then cur # split_on sep [] cs else split_on sep (cur @ [c]) cs)"

definition split_plus :: "string \<Rightarrow> string list" where
  "split_plus s = split_on (CHR ''+'') [] s"

text \<open>\<open>str.lower()\<close> below code point 256: A-Z and the Latin-1 capitals move up by 32.\<close>

definition lower_char :: "char \<Rightarrow> char" where
  "lower_char c =
     (let n = (of_char c :: nat)
      in if (65 \<le> n \<and> n \<le> 90) \<or> (192 \<le> n \<and> n \<le> 214) \<or> (216 \<le> n \<and> n \<le> 222)
         then char_of (n + 32) else c)"

definition lower :: "string \<Rightarrow> string" where
  "lower s = map lower_char s"

subsection \<open>Tables of the module\<close>

type_synonym dots = "nat list"

definition DOT_TO_KEY :: "(nat \<times> string) list" where
  "DOT_TO_KEY = [(1, ''D''), (2, ''W''), (3, ''Q''), (4, ''K''), (5, ''O''), (6, ''P'')]"

definition ENGLISH_BRAILLE :: "(char \<times> dots) list" where
  "ENGLISH_BRAILLE =
    [(CHR ''a'', [1]), (CHR ''b'', [1, 2]), (CHR ''c'', [1, 4]), (CHR ''d'', [1, 4, 5]),
     (CHR ''e'', [1, 5]), (CHR ''f'', [1, 2, 4]), (CHR ''g'', [1, 2, 4, 5]),
     (CHR ''h'', [1, 2, 5]), (CHR ''i'', [2, 4]), (CHR ''j'', [2, 4, 5]), (CHR ''k'', [1, 3]),
     (CHR ''l'', [1, 2, 3]), (CHR ''m'', [1, 3, 4]), (CHR ''n'', [1, 3, 4, 5]),
     (CHR ''o'', [1, 3, 5]), (CHR ''p'', [1, 2, 3, 4]), (CHR ''q'', [1, 2, 3, 4, 5]),
     (CHR ''r'', [1, 2, 3, 5]), (CHR ''s'', [2, 3, 4]), (CHR ''t'', [2, 3, 4, 5]),
     (CHR ''u'', [1, 3, 6]), (CHR ''v'', [1, 2, 3, 6]), (CHR ''w'', [2, 4, 5, 6]),
     (CHR ''x'', [1, 3, 4, 6]), (CHR ''y'', [1, 3, 4, 5, 6]), (CHR ''z'', [1, 3, 5, 6])]"

definition FRENCH_BRAILLE :: "(char \<times> dots) list" where
  "FRENCH_BRAILLE = ENGLISH_BRAILLE"

definition CONTRACTIONS :: "(string \<times> dots) list" where
  "CONTRACTIONS = [(''the'', [2, 3, 4, 6])]"

definition braille_maps :: "(string \<times> (char \<times> dots) list) list" where
  "braille_maps = [(''english'', ENGLISH_BRAILLE), (''french'', FRENCH_BRAILLE)]"

subsection \<open>Errors\<close>

text \<open>\<open>ValueError\<close> is raised by \<open>keys_to_dots\<close>; its message prints the set of segments
  that are not keys and the set of valid keys, which are kept as the two arguments.
  \<open>KeyError\<close> is what \<open>self.braille_maps[language]\<close> raises in \<open>add_word\<close>.\<close>

datatype error = ValueError "string set" "string set" | KeyError string

subsection \<open>Key mapping\<close>

definition valid_keys :: "string set" where
  "valid_keys = set (map snd DOT_TO_KEY)"

definition keys_to_dots :: "string \<Rightarrow> error + dots" where
  "keys_to_dots keys =
     (if keys = [] then Inr []
      else let key_set = set (split_plus keys)
           in if \<not> key_set \<subseteq> valid_keys
              then Inl (ValueError (key_set - valid_keys) valid_keys)
              else Inr (sort (map fst (filter (\<lambda>(dot, key). key \<in> key_set) DOT_TO_KEY))))"

text \<open>A list comprehension whose element expression may raise: the first exception, in
  list order, ends the comprehension.\<close>

fun comprehension :: "('a \<Rightarrow> error + 'b) \<Rightarrow> 'a list \<Rightarrow> error + 'b list" where
  "comprehension f [] = Inr []"
| "comprehension f (x # xs) =
     (case f x of
        Inl e \<Rightarrow> Inl e
      | Inr y \<Rightarrow> (case comprehension f xs of Inl e \<Rightarrow> Inl e | Inr ys \<Rightarrow> Inr (y # ys)))"

definition input_to_braille :: "string \<Rightarrow> error + dots list" where
  "input_to_braille input_seq = comprehension keys_to_dots (str_split input_seq)"

subsection \<open>The trie and the object state\<close>

datatype trie = TrieNode (children: "(dots \<times> trie) list") (is_end: bool) (word: "string option")

text \<open>\<open>TrieNode()\<close>: no children, not an end, \<open>word = None\<close>.\<close>

definition new_node :: trie where
  "new_node = TrieNode [] False None"

record autocorrect =
  dictionaries :: "string \<rightharpoonup> trie"
  corrections :: "string \<rightharpoonup> int"

text \<open>\<open>BrailleAutocorrect()\<close>: both \<open>defaultdict\<close>s start empty.\<close>

definition init :: autocorrect where
  "init = \<lparr>dictionaries = Map.empty, corrections = Map.empty\<rparr>"

text \<open>Indexing a \<open>defaultdict\<close>: a missing key is first stored with the default value.
  \<open>self.dictionaries[language]\<close> and \<open>self.corrections[key]\<close>:\<close>

definition get_dictionary :: "autocorrect \<Rightarrow> string \<Rightarrow> trie \<times> autocorrect" where
  "get_dictionary self language =
     (case dictionaries self language of
        None \<Rightarrow> (new_node, self\<lparr>dictionaries := (dictionaries self)(language \<mapsto> new_node)\<rparr>)
      | Some node \<Rightarrow> (node, self))"

definition get_count :: "(string \<rightharpoonup> int) \<Rightarrow> string \<Rightarrow> int \<times> (string \<rightharpoonup> int)" where
  "get_count corr key =
     (case corr key of None \<Rightarrow> (0, corr(key \<mapsto> 0)) | Some n \<Rightarrow> (n, corr))"

subsection \<open>Building the dictionary\<close>

text \<open>The walk of \<open>add_word\<close> from one node down a sequence of patterns: a missing
  child is created at the end of \<open>children\<close>, an existing one keeps its place, and the
  last node becomes an end carrying the word. The nodes are updated in place in the
  source; here the path is rebuilt.\<close>

fun insert_path :: "dots list \<Rightarrow> string \<Rightarrow> trie \<Rightarrow> trie" where
  "insert_path [] w (TrieNode cs e wd) = TrieNode cs True (Some w)"
| "insert_path (d # ds) w (TrieNode cs e wd) =
     TrieNode
       (AList.update d
          (insert_path ds w (case map_of cs d of None \<Rightarrow> new_node | Some child \<Rightarrow> child)) cs)
       e wd"

text \<open>\<open>tuple(table.get(char, []))\<close>\<close>

definition char_dots :: "(char \<times> dots) list \<Rightarrow> char \<Rightarrow> dots" where
  "char_dots table char = (case map_of table char of None \<Rightarrow> [] | Some d \<Rightarrow> d)"

text \<open>\<open>add_word\<close>: the dictionary is indexed first (and so created); the letter table
  of the language is looked up at the first character, where an unknown language raises
  \<open>KeyError\<close>; no character means no lookup.\<close>

definition add_word :: "autocorrect \<Rightarrow> string \<Rightarrow> string \<Rightarrow> (error + unit) \<times> autocorrect" where
  "add_word self w language =
     (let (node, self1) = get_dictionary self language
      in if lower w = []
         then (Inr (), self1\<lparr>dictionaries := (dictionaries self1)(language \<mapsto> insert_path [] w node)\<rparr>)
         else (case map_of braille_maps language of
                 None \<Rightarrow> (Inl (KeyError language), self1)
               | Some table \<Rightarrow>
                   (Inr (), self1\<lparr>dictionaries := (dictionaries self1)
                      (language \<mapsto> insert_path (map (char_dots table) (lower w)) w node)\<rparr>)))"

fun add_words :: "autocorrect \<Rightarrow> string list \<Rightarrow> string \<Rightarrow> (error + unit) \<times> autocorrect" where
  "add_words self [] language = (Inr (), self)"
| "add_words self (w # ws) language =
     (case add_word self w language of
        (Inl e, self') \<Rightarrow> (Inl e, self')
      | (Inr u, self') \<Rightarrow> add_words self' ws language)"

text \<open>The body of the contraction loop of \<open>load_dictionary\<close> on the root node.\<close>

definition add_contraction :: "trie \<Rightarrow> string \<times> dots \<Rightarrow> trie" where
  "add_contraction node wd =
     (case wd of (w, dots) \<Rightarrow>
        let cs = (if map_of (children node) dots = None
                  then children node @ [(dots, new_node)] else children node);
            child = (case map_of cs dots of None \<Rightarrow> new_node | Some c \<Rightarrow> c)
        in TrieNode (AList.update dots (TrieNode (children child) True (Some w)) cs)
             (is_end node) (word node))"

definition contraction_step :: "string \<Rightarrow> autocorrect \<Rightarrow> string \<times> dots \<Rightarrow> autocorrect" where
  "contraction_step language self wd =
     (let (node, self1) = get_dictionary self language
      in self1\<lparr>dictionaries := (dictionaries self1)(language \<mapsto> add_contraction node wd)\<rparr>)"

definition load_dictionary ::
  "autocorrect \<Rightarrow> string list \<Rightarrow> string \<Rightarrow> (error + unit) \<times> autocorrect" where
  "load_dictionary self words language =
     (case add_words self words language of
        (Inl e, self') \<Rightarrow> (Inl e, self')
      | (Inr u, self') \<Rightarrow>
          if language = ''english''
          then (Inr (), foldl (contraction_step language) self' CONTRACTIONS)
          else (Inr (), self'))"

subsection \<open>The scorer\<close>

definition hamming_distance :: "dots \<Rightarrow> dots \<Rightarrow> nat" where
  "hamming_distance dots1 dots2 =
     (let set1 = set dots1; set2 = set dots2 in card ((set1 - set2) \<union> (set2 - set1)))"

definition normalized_dot_distance :: "dots \<Rightarrow> dots \<Rightarrow> rat" where
  "normalized_dot_distance dots1 dots2 =
     (let set1 = set dots1; set2 = set dots2;
          intersection = card (set1 \<inter> set2);
          union = card (set1 \<union> set2)
      in if union = 0 then 1 else 1 - of_nat intersection / of_nat union)"

text \<open>The substitution cost of test2.py: \<open>hamming / 6 if hamming > 0 else 0\<close>.\<close>

definition hamming_cost :: "dots \<Rightarrow> dots \<Rightarrow> rat" where
  "hamming_cost c1 c2 =
     (let hamming = hamming_distance c1 c2 in if hamming > 0 then of_nat hamming / 6 else 0)"

text \<open>The two \<open>levenshtein_distance\<close> methods differ in the substitution cost only, which
  is the parameter \<open>cost\<close> of the loop bodies. \<open>inner_step\<close> is the body of the loop over
  \<open>enumerate(word_dots)\<close>, \<open>row_step\<close> the body of the loop over \<open>enumerate(input_dots)\<close>.
  The rows always have \<open>len(word_dots) + 1\<close> cells (lemma \<open>length_row_step\<close>), so every
  index read is in range.\<close>

definition inner_step ::
  "(dots \<Rightarrow> dots \<Rightarrow> rat) \<Rightarrow> dots \<Rightarrow> rat list \<Rightarrow> rat list \<Rightarrow> nat \<times> dots \<Rightarrow> rat list" where
  "inner_step cost c1 previous_row current_row jc =
     (case jc of (j, c2) \<Rightarrow>
        let insertions = previous_row ! (j + 1) + 1;
            deletions = current_row ! j + 1;
            substitutions = previous_row ! j + cost c1 c2
        in current_row @ [min (min insertions deletions) substitutions])"

definition row_step ::
  "(dots \<Rightarrow> dots \<Rightarrow> rat) \<Rightarrow> dots list \<Rightarrow> rat list \<Rightarrow> nat \<times> dots \<Rightarrow> rat list" where
  "row_step cost word_dots previous_row ic =
     (case ic of (i, c1) \<Rightarrow>
        foldl (inner_step cost c1 previous_row) [of_nat (i + 1)] (enumerate 0 word_dots))"

definition levenshtein ::
  "(dots \<Rightarrow> dots \<Rightarrow> rat) \<Rightarrow> dots list \<Rightarrow> dots list \<Rightarrow> rat" where
  "levenshtein cost input_dots0 word_dots0 =
     (let len_diff_penalty =
            of_int \<bar>int (length input_dots0) - int (length word_dots0)\<bar> * (1 / 2);
          (input_dots, word_dots) =
            (if length input_dots0 < length word_dots0 then (word_dots0, input_dots0)
             else (input_dots0, word_dots0))
      in if word_dots = [] then of_nat (length input_dots) + len_diff_penalty
         else last (foldl (row_step cost word_dots) (map of_nat [0 ..< length word_dots + 1])
                      (enumerate 0 input_dots))
              + len_diff_penalty)"

definition levenshtein_distance :: "dots list \<Rightarrow> dots list \<Rightarrow> rat" where
  "levenshtein_distance = levenshtein normalized_dot_distance"

definition levenshtein_distance_test2 :: "dots list \<Rightarrow> dots list \<Rightarrow> rat" where
  "levenshtein_distance_test2 = levenshtein hamming_cost"

subsection \<open>The ranker\<close>

type_synonym suggestion = "rat \<times> rat \<times> string"

text \<open>\<open>heapq.heappush(heap, item)\<close> appends the item and sifts it towards the root
  (\<open>_siftdown(heap, 0, len(heap) - 1)\<close> of the standard library). Tuples compare
  lexicographically, which is the order of the product type.\<close>

function siftdown :: "suggestion list \<Rightarrow> suggestion \<Rightarrow> nat \<Rightarrow> nat \<Rightarrow> suggestion list" where
  "siftdown heap newitem startpos pos =
     (if pos > startpos
      then let parentpos = (pos - 1) div 2; parent = heap ! parentpos
           in if newitem < parent then siftdown (heap[pos := parent]) newitem startpos parentpos
              else heap[pos := newitem]
      else heap[pos := newitem])"
  by pat_completeness auto
termination
  by (relation "measure (\<lambda>(heap, newitem, startpos, pos). pos)") auto

definition heappush :: "suggestion list \<Rightarrow> suggestion \<Rightarrow> suggestion list" where
  "heappush heap item = siftdown (heap @ [item]) item 0 (length heap)"

text \<open>\<open>min(0.5, 0.1 * count)\<close>\<close>

definition learn_bonus :: "int \<Rightarrow> rat" where
  "learn_bonus cnt = min (1 / 2) (1 / 10 * of_int cnt)"

text \<open>The closure \<open>dfs\<close> of \<open>suggest_word\<close>. It appends to \<open>suggestions\<close> and, by
  indexing \<open>self.corrections\<close>, may store a zero count: both are threaded through.
  The third parameter of the source, \<open>word_path\<close>, is never read and is left out.\<close>

fun dfs :: "dots list \<Rightarrow> trie \<Rightarrow> dots list \<Rightarrow> suggestion list \<times> (string \<rightharpoonup> int)
    \<Rightarrow> suggestion list \<times> (string \<rightharpoonup> int)"
and dfs_children :: "dots list \<Rightarrow> (dots \<times> trie) list \<Rightarrow> dots list
    \<Rightarrow> suggestion list \<times> (string \<rightharpoonup> int) \<Rightarrow> suggestion list \<times> (string \<rightharpoonup> int)" where
  "dfs input_dots (TrieNode cs e wd) current_dots acc =
     dfs_children input_dots cs current_dots
       (case wd of
          None \<Rightarrow> acc
        | Some w \<Rightarrow>
            if e \<and> w \<noteq> [] then
              (case acc of (suggestions, corr) \<Rightarrow>
                 let dist = levenshtein_distance input_dots current_dots;
                     (cnt, corr') = get_count corr (lower w);
                     score = dist - learn_bonus cnt
                 in (heappush suggestions (score, dist, w), corr'))
            else acc)"
| "dfs_children input_dots [] current_dots acc = acc"
| "dfs_children input_dots ((dots, child) # rest) current_dots acc =
     dfs_children input_dots rest current_dots
       (dfs input_dots child (current_dots @ [dots]) acc)"

text \<open>\<open>xs[:k]\<close>: a negative \<open>k\<close> counts from the end.\<close>

definition slice_to :: "'a list \<Rightarrow> int \<Rightarrow> 'a list" where
  "slice_to xs k = (if 0 \<le> k then take (nat k) xs else take (nat (int (length xs) + k)) xs)"

definition suggest_word ::
  "autocorrect \<Rightarrow> string \<Rightarrow> string \<Rightarrow> int \<Rightarrow> (error + string list) \<times> autocorrect" where
  "suggest_word self input_seq language max_suggestions =
     (case input_to_braille input_seq of
        Inl e \<Rightarrow> (Inl e, self)
      | Inr input_dots \<Rightarrow>
          if input_dots = [] then (Inr [], self)
          else let (root, self1) = get_dictionary self language;
                   (suggestions, corr) = dfs input_dots root [] ([], corrections self1);
                   suggestions' = sort suggestions
               in (Inr (map (\<lambda>(score, dist, w). w) (slice_to suggestions' max_suggestions)),
                   self1\<lparr>corrections := corr\<rparr>))"

definition learn_correction :: "autocorrect \<Rightarrow> string \<Rightarrow> string \<Rightarrow> autocorrect" where
  "learn_correction self input_seq corrected_word =
     (let (cnt, corr) = get_count (corrections self) (lower corrected_word)
      in self\<lparr>corrections := corr(lower corrected_word \<mapsto> cnt + 1)\<rparr>)"

definition process_input ::
  "autocorrect \<Rightarrow> string \<Rightarrow> string \<Rightarrow> (error + string list) \<times> autocorrect" where
  "process_input self input_seq language = suggest_word self input_seq language 1"

subsection \<open>The ranker of test2.py\<close>

text \<open>\<open>search_trie\<close> of test2.py: the distance of that file, the length difference added
  once more to the score, and the count read under the word as stored (not lowercased).\<close>

fun search_trie :: "dots list \<Rightarrow> trie \<Rightarrow> dots list \<Rightarrow> suggestion list \<times> (string \<rightharpoonup> int)
    \<Rightarrow> suggestion list \<times> (string \<rightharpoonup> int)"
and search_children :: "dots list \<Rightarrow> (dots \<times> trie) list \<Rightarrow> dots list
    \<Rightarrow> suggestion list \<times> (string \<rightharpoonup> int) \<Rightarrow> suggestion list \<times> (string \<rightharpoonup> int)" where
  "search_trie input_dots (TrieNode cs e wd) current_dots acc =
     search_children input_dots cs current_dots
       (case wd of
          None \<Rightarrow> acc
        | Some w \<Rightarrow>
            if e \<and> w \<noteq> [] then
              (case acc of (suggestions, corr) \<Rightarrow>
                 let distance = levenshtein_distance_test2 input_dots current_dots;
                     length_adjustment =
                       of_int \<bar>int (length current_dots) - int (length input_dots)\<bar> * (1 / 2);
                     (cnt, corr') = get_count corr w;
                     learning_adjustment = learn_bonus cnt;
                     score = distance + length_adjustment - learning_adjustment
                 in (heappush suggestions (score, distance, w), corr'))
            else acc)"
| "search_children input_dots [] current_dots acc = acc"
| "search_children input_dots ((dots, child) # rest) current_dots acc =
     search_children input_dots rest current_dots
       (search_trie input_dots child (current_dots @ [dots]) acc)"

definition suggest_word_test2 ::
  "autocorrect \<Rightarrow> string \<Rightarrow> string \<Rightarrow> int \<Rightarrow> (error + string list) \<times> autocorrect" where
  "suggest_word_test2 self input_seq language max_suggestions =
     (case input_to_braille input_seq of
        Inl e \<Rightarrow> (Inl e, self)
      | Inr input_dots \<Rightarrow>
          if input_dots = [] then (Inr [], self)
          else let (root, self1) = get_dictionary self language;
                   (suggestions, corr) = search_trie input_dots root [] ([], corrections self1);
                   suggestions' = sort suggestions
               in (Inr (map (\<lambda>(score, dist, w). w) (slice_to suggestions' max_suggestions)),
                   self1\<lparr>corrections := corr\<rparr>))"

subsection \<open>Reachable objects\<close>

text \<open>The objects a caller can hold: a fresh one, changed by the methods of the class
  and by \<open>corrections.clear()\<close>, which the test drivers call between cases.\<close>

inductive reachable :: "autocorrect \<Rightarrow> bool" where
  reach_init: "reachable init"
| reach_add_word: "reachable self \<Longrightarrow> reachable (snd (add_word self w language))"
| reach_load: "reachable self \<Longrightarrow> reachable (snd (load_dictionary self ws language))"
| reach_suggest: "reachable self \<Longrightarrow> reachable (snd (suggest_word self input_seq language k))"
| reach_learn: "reachable self \<Longrightarrow> reachable (learn_correction self input_seq w)"
| reach_clear: "reachable self \<Longrightarrow> reachable (self\<lparr>corrections := Map.empty\<rparr>)"

subsection \<open>Notions used to state the properties\<close>

text \<open>The count a \<open>defaultdict(int)\<close> shows for a key: zero when the key is not stored.\<close>

definition count_of :: "(string \<rightharpoonup> int) \<Rightarrow> string \<Rightarrow> int" where
  "count_of corr key = (case corr key of None \<Rightarrow> 0 | Some n \<Rightarrow> n)"

text \<open>The trie a language shows when indexed: an empty node when it is not stored.\<close>

definition trie_of :: "autocorrect \<Rightarrow> string \<Rightarrow> trie" where
  "trie_of self language = (case dictionaries self language of None \<Rightarrow> new_node | Some t \<Rightarrow> t)"

text \<open>The candidates of a trie: root-to-node paths and words of the nodes that are an end
  and carry a non-empty word, in the order the depth-first walk meets them.\<close>

fun terminals :: "trie \<Rightarrow> dots list \<Rightarrow> (dots list \<times> string) list"
and terminals_children :: "(dots \<times> trie) list \<Rightarrow> dots list \<Rightarrow> (dots list \<times> string) list" where
  "terminals (TrieNode cs e wd) path =
     (case wd of None \<Rightarrow> [] | Some w \<Rightarrow> if e \<and> w \<noteq> [] then [(path, w)] else [])
     @ terminals_children cs path"
| "terminals_children [] path = []"
| "terminals_children ((d, child) # rest) path =
     terminals child (path @ [d]) @ terminals_children rest path"

text \<open>The triple recorded for a candidate, given the counts.\<close>

definition triple_of :: "dots list \<Rightarrow> (string \<Rightarrow> int) \<Rightarrow> dots list \<times> string \<Rightarrow> suggestion" where
  "triple_of input_dots cnt pw =
     (case pw of (path, w) \<Rightarrow>
        (levenshtein_distance input_dots path - min (1 / 2) (1 / 10 * of_int (cnt (lower w))),
         levenshtein_distance input_dots path, w))"

text \<open>The keys that indexing \<open>corrections\<close> stores with a zero count.\<close>

definition zero_fill :: "(string \<rightharpoonup> int) \<Rightarrow> string list \<Rightarrow> (string \<rightharpoonup> int)" where
  "zero_fill corr keys = foldl (\<lambda>c key. snd (get_count c key)) corr keys"


text \<open>The shape of the keys of a trie built by the class: in every node the keys of the
  children are pairwise different, and each key is strictly increasing.\<close>

fun wf_trie :: "trie \<Rightarrow> bool"
and wf_children :: "(dots \<times> trie) list \<Rightarrow> bool" where
  "wf_trie (TrieNode cs e wd) = (distinct (map fst cs) \<and> wf_children cs)"
| "wf_children [] = True"
| "wf_children ((d, child) # rest) = (sorted_wrt (<) d \<and> wf_trie child \<and> wf_children rest)"

text \<open>The root of a trie built by the class carries no word or, after \<open>add_word('')\<close>,
  the empty one; and every stored trie has both shapes.\<close>

definition root_plain :: "trie \<Rightarrow> bool" where
  "root_plain t = (word t = None \<or> word t = Some [])"

definition wf_state :: "autocorrect \<Rightarrow> bool" where
  "wf_state self = (\<forall>l t. dictionaries self l = Some t \<longrightarrow> wf_trie t \<and> root_plain t)"

subsection \<open>The scorer as the specification words it\<close>

text \<open>Jaccard distance of two dot sets; two empty sets are at distance one.\<close>

definition spec_subCost :: "nat set \<Rightarrow> nat set \<Rightarrow> rat" where
  "spec_subCost p q =
     (if p \<union> q = {} then 1 else 1 - of_nat (card (p \<inter> q)) / of_nat (card (p \<union> q)))"

text \<open>Cell \<open>(i, j)\<close> of the edit-distance table of \<open>A\<close> against \<open>B\<close>: unit insertion and
  deletion, substitution of \<open>A[i-1]\<close> by \<open>B[j-1]\<close> at the given cost.\<close>

fun spec_cell :: "(dots \<Rightarrow> dots \<Rightarrow> rat) \<Rightarrow> dots list \<Rightarrow> dots list \<Rightarrow> nat \<Rightarrow> nat \<Rightarrow> rat" where
  "spec_cell cost A B 0 j = of_nat j"
| "spec_cell cost A B (Suc i) 0 = of_nat (Suc i)"
| "spec_cell cost A B (Suc i) (Suc j) =
     min (min (spec_cell cost A B i (Suc j) + 1) (spec_cell cost A B (Suc i) j + 1))
         (spec_cell cost A B i j + cost (A ! i) (B ! j))"


subsection \<open>Example objects\<close>

text \<open>The dictionary of the test drivers, and a small one.\<close>

definition example_english :: autocorrect where
  "example_english =
     snd (load_dictionary init [''cat'', ''hat'', ''the'', ''hello'', ''dog'', ''bad''] ''english'')"

definition example_qi :: autocorrect where
  "example_qi = snd (load_dictionary init [''q'', ''i''] ''english'')"

section \<open>Properties\<close>

subsection \<open>Parsing\<close>

lemma split_ws_blank: "\<forall>c \<in> set s. is_space c \<Longrightarrow> split_ws [] s = []"
  by (induction s) auto

lemma split_ws_nonempty: "[] \<notin> set (split_ws cur s)"
  by (induction s arbitrary: cur) auto

lemma valid_keys_eq: "valid_keys = {''D'', ''W'', ''Q'', ''K'', ''O'', ''P''}"
  by (auto simp: valid_keys_def DOT_TO_KEY_def)

lemma keys_to_dots_invalid:
  "keys \<noteq> [] \<Longrightarrow> \<not> set (split_plus keys) \<subseteq> valid_keys \<Longrightarrow>
   keys_to_dots keys = Inl (ValueError (set (split_plus keys) - valid_keys) valid_keys)"
  by (simp add: keys_to_dots_def Let_def)

lemma keys_to_dots_valid:
  "set (split_plus keys) \<subseteq> valid_keys \<Longrightarrow> \<exists>d. keys_to_dots keys = Inr d"
  by (simp add: keys_to_dots_def Let_def)

lemma comprehension_first_error:
  "\<forall>x \<in> set pre. \<exists>y. f x = Inr y \<Longrightarrow> f t = Inl e \<Longrightarrow>
   comprehension f (pre @ t # post) = Inl e"
  by (induction pre) auto

text \<open>Where \<open>split\<close> on a separator yields an empty segment: before a leading
  separator, after a trailing one, and between two adjacent ones.\<close>

lemma split_on_empty_segment:
  "[] \<in> set (split_on sep cur s) \<longleftrightarrow>
     (cur = [] \<and> (s = [] \<or> hd s = sep)) \<or> (s \<noteq> [] \<and> last s = sep) \<or>
     (\<exists>a b. s = a @ [sep, sep] @ b)"
proof (induction s arbitrary: cur)
  case Nil
  then show ?case by auto
next
  case (Cons c s)
  show ?case
  proof (cases "c = sep")
    case True
    have "(\<exists>a b. c # s = a @ [sep, sep] @ b) \<longleftrightarrow>
          (s \<noteq> [] \<and> hd s = sep) \<or> (\<exists>a b. s = a @ [sep, sep] @ b)"
      using True by (auto simp: Cons_eq_append_conv) (metis hd_Cons_tl)
    then show ?thesis
      using True Cons.IH[of "[]"] by auto
  next
    case False
    have "(\<exists>a b. c # s = a @ [sep, sep] @ b) \<longleftrightarrow> (\<exists>a b. s = a @ [sep, sep] @ b)"
      using False by (auto simp: Cons_eq_append_conv)
    then show ?thesis
      using False Cons.IH[of "cur @ [c]"] by auto
  qed
qed

lemma empty_segment_shapes:
  "keys \<noteq> [] \<Longrightarrow>
   [] \<in> set (split_plus keys) \<longleftrightarrow>
     hd keys = CHR ''+'' \<or> last keys = CHR ''+'' \<or> (\<exists>a b. keys = a @ ''++'' @ b)"
  by (simp add: split_plus_def split_on_empty_segment)

text \<open>C8. An input string that is empty or consists of whitespace only makes
  \<open>suggest_word\<close> (and \<open>process_input\<close>) return the empty list at once: the object is
  returned as it was, no dictionary is indexed, no error is raised, whatever the language.\<close>

theorem suggest_word_blank_input:
  assumes "\<forall>c \<in> set input_seq. is_space c"
  shows "suggest_word self input_seq language k = (Inr [], self)
       \<and> process_input self input_seq language = (Inr [], self)"
  using assms
  by (simp add: suggest_word_def process_input_def input_to_braille_def str_split_def
      split_ws_blank)

theorem suggest_word_blank_input_witness:
  "is_space (CHR '' '')
   \<and> suggest_word init '' '' ''english'' 1 = (Inr [], init)
   \<and> suggest_word init [] ''french'' 3 = (Inr [], init)"
  using suggest_word_blank_input [of "'' ''" init "''english''" 1]
    suggest_word_blank_input [of "[]" init "''french''" 3]
  by (simp add: is_space_def)

text \<open>C10. A non-empty token with an empty \<open>'+'\<close>-separated segment (a leading, a
  trailing or a doubled \<open>'+'\<close>) makes \<open>keys_to_dots\<close> raise the \<open>ValueError\<close>, and the empty
  string is one of the offending segments it reports.\<close>

theorem keys_to_dots_empty_segment:
  assumes "keys \<noteq> []"
    and "hd keys = CHR ''+'' \<or> last keys = CHR ''+'' \<or> (\<exists>a b. keys = a @ ''++'' @ b)"
  shows "keys_to_dots keys = Inl (ValueError (set (split_plus keys) - valid_keys) valid_keys)
       \<and> [] \<in> set (split_plus keys) - valid_keys"
proof -
  have mem: "[] \<in> set (split_plus keys)"
    using empty_segment_shapes [OF assms(1)] assms(2) by (rule iffD2)
  have out: "[] \<notin> valid_keys"
    by (simp add: valid_keys_eq)
  from mem out have ns: "\<not> set (split_plus keys) \<subseteq> valid_keys"
    by blast
  have "keys_to_dots keys = Inl (ValueError (set (split_plus keys) - valid_keys) valid_keys)"
    using assms(1) ns by (rule keys_to_dots_invalid)
  moreover have "[] \<in> set (split_plus keys) - valid_keys"
    using mem out by (rule DiffI)
  ultimately show ?thesis
    by (rule conjI)
qed

theorem keys_to_dots_empty_segment_witness:
  "keys_to_dots ''D+'' = Inl (ValueError {[]} valid_keys)
   \<and> keys_to_dots ''+D'' = Inl (ValueError {[]} valid_keys)
   \<and> keys_to_dots ''D++K'' = Inl (ValueError {[]} valid_keys)"
proof -
  have a: "hd ''D+'' = CHR ''+'' \<or> last ''D+'' = CHR ''+'' \<or> (\<exists>a b. ''D+'' = a @ ''++'' @ b)"
    by simp
  have b: "hd ''+D'' = CHR ''+'' \<or> last ''+D'' = CHR ''+'' \<or> (\<exists>a b. ''+D'' = a @ ''++'' @ b)"
    by simp
  have "''D++K'' = ''D'' @ ''++'' @ ''K''"
    by simp
  then have c: "hd ''D++K'' = CHR ''+'' \<or> last ''D++K'' = CHR ''+''
      \<or> (\<exists>a b. ''D++K'' = a @ ''++'' @ b)"
    by blast
  have d: "set (split_plus ''D+'') - valid_keys = {[]}"
    "set (split_plus ''+D'') - valid_keys = {[]}"
    "set (split_plus ''D++K'') - valid_keys = {[]}"
    by (auto simp: split_plus_def valid_keys_eq)
  show ?thesis
    using keys_to_dots_empty_segment [OF _ a] keys_to_dots_empty_segment [OF _ b]
      keys_to_dots_empty_segment [OF _ c] d
    by simp
qed

text \<open>C4. When some token of the input has a segment outside the six keys, take the
  leftmost such token \<open>t\<close> (all tokens before it are valid). \<open>input_to_braille\<close> raises the
  \<open>ValueError\<close> of \<open>t\<close>, which carries exactly the segments of \<open>t\<close> that are not keys and the
  set of the six valid keys; \<open>suggest_word\<close> and \<open>process_input\<close> raise the same error,
  return no list, and leave the object as it was.\<close>

theorem invalid_key_error_leftmost:
  assumes "str_split input_seq = pre @ t # post"
    and "\<forall>k \<in> set pre. set (split_plus k) \<subseteq> valid_keys"
    and "\<not> set (split_plus t) \<subseteq> valid_keys"
  shows "input_to_braille input_seq
           = Inl (ValueError (set (split_plus t) - valid_keys) {''D'', ''W'', ''Q'', ''K'', ''O'', ''P''})
       \<and> suggest_word self input_seq language k
           = (Inl (ValueError (set (split_plus t) - valid_keys) {''D'', ''W'', ''Q'', ''K'', ''O'', ''P''}), self)
       \<and> process_input self input_seq language
           = (Inl (ValueError (set (split_plus t) - valid_keys) {''D'', ''W'', ''Q'', ''K'', ''O'', ''P''}), self)"
proof -
  have "t \<in> set (split_ws [] input_seq)"
    using assms(1) by (simp add: str_split_def)
  then have "t \<noteq> []"
    using split_ws_nonempty by metis
  then have t: "keys_to_dots t = Inl (ValueError (set (split_plus t) - valid_keys) valid_keys)"
    using assms(3) by (rule keys_to_dots_invalid)
  have "\<forall>k \<in> set pre. \<exists>d. keys_to_dots k = Inr d"
    using assms(2) keys_to_dots_valid by blast
  then have "input_to_braille input_seq
      = Inl (ValueError (set (split_plus t) - valid_keys) valid_keys)"
    using t assms(1) by (simp add: input_to_braille_def comprehension_first_error)
  then show ?thesis
    by (simp add: suggest_word_def process_input_def valid_keys_eq)
qed

theorem invalid_key_error_leftmost_witness:
  "str_split ''D+K A+B C+D'' = [''D+K''] @ ''A+B'' # [''C+D'']
   \<and> suggest_word init ''D+K A+B C+D'' ''english'' 1
       = (Inl (ValueError {''A'', ''B''} {''D'', ''W'', ''Q'', ''K'', ''O'', ''P''}), init)"
proof -
  have s: "str_split ''D+K A+B C+D'' = [''D+K''] @ ''A+B'' # [''C+D'']"
    by (simp add: str_split_def is_space_def)
  have v: "\<forall>k \<in> set [''D+K'']. set (split_plus k) \<subseteq> valid_keys"
    by (simp add: split_plus_def valid_keys_eq)
  have d: "set (split_plus ''A+B'') - valid_keys = {''A'', ''B''}"
    by (auto simp: split_plus_def valid_keys_eq)
  then have i: "\<not> set (split_plus ''A+B'') \<subseteq> valid_keys"
    by blast
  show ?thesis
    using invalid_key_error_leftmost [OF s v i, of init "''english''" 1] s d by simp
qed

subsection \<open>The walk and the heap\<close>

declare siftdown.simps [simp del]

lemma mset_siftdown:
  "pos < length heap \<Longrightarrow>
   mset (siftdown heap newitem startpos pos) = add_mset newitem (mset heap - {#heap ! pos#})"
proof (induction heap newitem startpos pos rule: siftdown.induct)
  case (1 heap newitem startpos pos)
  let ?pp = "(pos - 1) div 2"
  show ?case
  proof (cases "pos > startpos \<and> newitem < heap ! ?pp")
    case True
    then have "0 < pos" by simp
    then have lt: "?pp < pos"
      using div_le_dividend [of "pos - 1" 2] by linarith
    have "mset (siftdown (heap[pos := heap ! ?pp]) newitem startpos ?pp)
        = add_mset newitem (mset (heap[pos := heap ! ?pp]) - {#heap[pos := heap ! ?pp] ! ?pp#})"
      using True lt "1.prems" by (intro "1.IH") auto
    also have "heap[pos := heap ! ?pp] ! ?pp = heap ! ?pp"
      using lt by simp
    also have "mset (heap[pos := heap ! ?pp]) - {#heap ! ?pp#} = mset heap - {#heap ! pos#}"
      using "1.prems" by (simp add: mset_update)
    finally show ?thesis
      using True by (subst siftdown.simps) (simp add: Let_def)
  next
    case False
    then show ?thesis
      using "1.prems" by (subst siftdown.simps) (auto simp: Let_def mset_update)
  qed
qed

lemma mset_heappush: "mset (heappush heap item) = add_mset item (mset heap)"
  by (simp add: heappush_def mset_siftdown nth_append)

lemma mset_foldl_heappush: "mset (foldl heappush heap xs) = mset heap + mset xs"
  by (induction xs arbitrary: heap) (simp_all add: mset_heappush)

lemma sort_foldl_heappush: "sort (foldl heappush [] xs) = sort xs"
  by (rule properties_for_sort) (simp_all add: mset_foldl_heappush)

lemma fst_get_count: "fst (get_count corr key) = count_of corr key"
  by (simp add: get_count_def count_of_def split: option.splits)

lemma count_of_get_count: "count_of (snd (get_count corr key)) = count_of corr"
  by (rule ext) (simp add: get_count_def count_of_def split: option.splits)

lemma count_of_zero_fill: "count_of (zero_fill corr keys) = count_of corr"
  unfolding zero_fill_def
  by (induction keys arbitrary: corr) (simp_all add: count_of_get_count)

lemma zero_fill_Nil: "zero_fill corr [] = corr"
  by (simp add: zero_fill_def)

lemma zero_fill_Cons: "zero_fill corr (k # ks) = zero_fill (snd (get_count corr k)) ks"
  by (simp add: zero_fill_def)

lemma zero_fill_append: "zero_fill corr (ks @ ks') = zero_fill (zero_fill corr ks) ks'"
  by (simp add: zero_fill_def)

lemma learn_bonus_eq: "learn_bonus c = min (1 / 2) (1 / 10 * of_int c)"
  by (simp add: learn_bonus_def)

lemma dfs_walk:
  "dfs input_dots t path acc =
     (foldl heappush (fst acc) (map (triple_of input_dots (count_of (snd acc))) (terminals t path)),
      zero_fill (snd acc) (map (\<lambda>pw. lower (snd pw)) (terminals t path)))"
  "dfs_children input_dots cs path acc =
     (foldl heappush (fst acc)
        (map (triple_of input_dots (count_of (snd acc))) (terminals_children cs path)),
      zero_fill (snd acc) (map (\<lambda>pw. lower (snd pw)) (terminals_children cs path)))"
proof (induction input_dots t path acc and input_dots cs path acc rule: dfs_dfs_children.induct)
  case (1 input_dots cs e wd current_dots acc)
  show ?case
  proof (cases "\<exists>w. wd = Some w \<and> e \<and> w \<noteq> []")
    case True
    then obtain w where w: "wd = Some w" "e" "w \<noteq> []" by blast
    obtain suggestions corr where acc: "acc = (suggestions, corr)" by (cases acc)
    show ?thesis
      apply (subst dfs.simps)
      apply (subst "1.IH")
      using w acc
      apply (simp add: Let_def split_beta fst_get_count count_of_get_count
          zero_fill_Cons triple_of_def learn_bonus_eq)
      done
  next
    case False
    show ?thesis
      apply (subst dfs.simps)
      apply (subst "1.IH")
      using False
      apply (cases wd)
       apply (auto simp: zero_fill_Nil)
      done
  qed
next
  case (2 input_dots current_dots acc)
  then show ?case by (simp add: zero_fill_Nil)
next
  case (3 input_dots dots child rest current_dots acc)
  show ?case
    apply (subst dfs_children.simps)
    apply (subst "3.IH"(2))
    apply (simp add: "3.IH"(1) zero_fill_append count_of_zero_fill)
    done
qed




lemma get_dictionary_eq:
  "get_dictionary self language =
     (trie_of self language,
      self\<lparr>dictionaries := (dictionaries self)(language \<mapsto> trie_of self language)\<rparr>)"
  by (cases "dictionaries self language")
     (simp_all add: get_dictionary_def trie_of_def map_upd_triv)

text \<open>What \<open>suggest_word\<close> computes on an input of at least one valid group.\<close>

lemma suggest_word_eq:
  assumes "input_to_braille input_seq = Inr input_dots" and "input_dots \<noteq> []"
  shows "suggest_word self input_seq language k =
    (Inr (map (\<lambda>(score, dist, w). w)
       (slice_to (sort (map (triple_of input_dots (count_of (corrections self)))
                          (terminals (trie_of self language) []))) k)),
     self\<lparr>dictionaries := (dictionaries self)(language \<mapsto> trie_of self language),
          corrections := zero_fill (corrections self)
             (map (\<lambda>pw. lower (snd pw)) (terminals (trie_of self language) []))\<rparr>)"
  using assms
  by (simp add: suggest_word_def get_dictionary_eq dfs_walk sort_foldl_heappush)

lemma suggest_word_state:
  "snd (suggest_word self input_seq language k) = self \<or>
   (\<exists>keys. snd (suggest_word self input_seq language k) =
      self\<lparr>dictionaries := (dictionaries self)(language \<mapsto> trie_of self language),
           corrections := zero_fill (corrections self) keys\<rparr>)"
proof (cases "input_to_braille input_seq")
  case (Inl e)
  then show ?thesis by (simp add: suggest_word_def)
next
  case (Inr input_dots)
  show ?thesis
  proof (cases "input_dots = []")
    case True
    with Inr show ?thesis by (simp add: suggest_word_def)
  next
    case False
    show ?thesis
      by (rule disjI2) (auto simp: suggest_word_eq [OF Inr False])
  qed
qed

lemma trie_of_upd: "trie_of (self\<lparr>dictionaries := (dictionaries self)(language \<mapsto> trie_of self language),
           corrections := c\<rparr>) l = trie_of self l"
  by (simp add: trie_of_def)

lemma get_count_keeps: "corr key = Some n \<Longrightarrow> snd (get_count corr a) key = Some n"
  by (auto simp: get_count_def split: option.splits)

lemma get_count_adds:
  "corr key = None \<Longrightarrow>
   snd (get_count corr a) key = (if a = key then Some 0 else None)"
  by (auto simp: get_count_def split: option.splits)

lemma zero_fill_keeps: "corr key = Some n \<Longrightarrow> zero_fill corr keys key = Some n"
  by (induction keys arbitrary: corr) (simp_all add: zero_fill_Nil zero_fill_Cons get_count_keeps)

lemma zero_fill_adds:
  "corr key = None \<Longrightarrow>
   zero_fill corr keys key = (if key \<in> set keys then Some 0 else None)"
proof (induction keys arbitrary: corr)
  case Nil
  then show ?case by (simp add: zero_fill_Nil)
next
  case (Cons a keys)
  show ?case
  proof (cases "a = key")
    case True
    then have "snd (get_count corr a) key = Some 0"
      using Cons.prems by (simp add: get_count_adds)
    then show ?thesis
      using True by (simp add: zero_fill_Cons zero_fill_keeps)
  next
    case False
    then have "snd (get_count corr a) key = None"
      using Cons.prems by (simp add: get_count_adds)
    then show ?thesis
      using False Cons.IH by (simp add: zero_fill_Cons)
  qed
qed


subsection \<open>Languages without a dictionary\<close>





subsection \<open>The two scorers\<close>

lemma scorers_differ_example:
  "fst (suggest_word example_qi ''D'' ''english'' 1) = Inr [''q'']
   \<and> fst (suggest_word_test2 example_qi ''D'' ''english'' 1) = Inr [''i'']"
  by code_simp

text \<open>C9. On the dictionary \<open>q, i\<close> (with the contraction of English) and the input
  \<open>D\<close>, the ranker of braille.py answers \<open>q\<close> and the ranker of test2.py answers \<open>i\<close>: the
  two functions are different.\<close>

theorem scorers_differ:
  "(\<exists>self input_seq language k.
      fst (suggest_word self input_seq language k)
        \<noteq> fst (suggest_word_test2 self input_seq language k))
   \<and> suggest_word \<noteq> suggest_word_test2"
proof -
  have ne: "fst (suggest_word example_qi ''D'' ''english'' 1)
      \<noteq> fst (suggest_word_test2 example_qi ''D'' ''english'' 1)"
    using scorers_differ_example by simp
  then have "suggest_word \<noteq> suggest_word_test2"
    by metis
  with ne show ?thesis
    by blast
qed

subsection \<open>What a suggestion request changes\<close>

text \<open>C5 (as the code has it). A call of \<open>suggest_word\<close> or \<open>process_input\<close> keeps what
  every language and every word reads as (the trie, the count, with the defaults of the
  two \<open>defaultdict\<close>s), and keeps every stored trie and every stored count; it can only
  add entries: an empty trie for the language of the call, and zero counts.\<close>

theorem suggest_word_frame:
  "(\<forall>l. trie_of (snd (suggest_word self input_seq language k)) l = trie_of self l)
   \<and> (\<forall>key. count_of (corrections (snd (suggest_word self input_seq language k))) key
              = count_of (corrections self) key)
   \<and> (\<forall>l t. dictionaries self l = Some t
          \<longrightarrow> dictionaries (snd (suggest_word self input_seq language k)) l = Some t)
   \<and> (\<forall>l. dictionaries self l = None
          \<longrightarrow> dictionaries (snd (suggest_word self input_seq language k)) l = None
            \<or> (l = language
                \<and> dictionaries (snd (suggest_word self input_seq language k)) l = Some new_node))
   \<and> (\<forall>key n. corrections self key = Some n
          \<longrightarrow> corrections (snd (suggest_word self input_seq language k)) key = Some n)
   \<and> (\<forall>key. corrections self key = None
          \<longrightarrow> corrections (snd (suggest_word self input_seq language k)) key = None
            \<or> corrections (snd (suggest_word self input_seq language k)) key = Some 0)
   \<and> snd (process_input self input_seq language) = snd (suggest_word self input_seq language 1)"
  using suggest_word_state [of self input_seq language k]
  apply (elim disjE exE)
   apply (simp add: process_input_def)
  apply (simp only: process_input_def)
  apply (intro conjI allI impI)
        apply (simp_all add: trie_of_upd count_of_zero_fill zero_fill_keeps)
    apply (auto simp: trie_of_def zero_fill_adds)
  done

theorem suggest_word_frame_witness:
  "dictionaries example_qi ''english'' \<noteq> None
   \<and> dictionaries (snd (suggest_word example_qi ''D'' ''english'' 1)) ''english''
       = dictionaries example_qi ''english''
   \<and> count_of (corrections (snd (suggest_word example_qi ''D'' ''english'' 1))) ''q'' = 0"
proof -
  have d: "dictionaries example_qi ''english'' \<noteq> None"
    by code_simp
  have c: "count_of (corrections example_qi) ''q'' = 0"
    by code_simp
  show ?thesis
    using suggest_word_frame [of example_qi "''D''" "''english''" 1] d c by auto
qed

text \<open>The object is not the same after a call: a candidate word gets a stored zero
  count, and a language that was not stored gets an empty trie.\<close>

theorem suggest_word_changes_object:
  "corrections example_qi ''q'' = None
   \<and> corrections (snd (process_input example_qi ''D'' ''english'')) ''q'' = Some 0
   \<and> dictionaries init ''klingon'' = None
   \<and> dictionaries (snd (process_input init ''D'' ''klingon'')) ''klingon'' = Some new_node"
  by code_simp

subsection \<open>The distance loops compute the edit-distance table\<close>

lemma enumerate_snoc: "enumerate 0 (xs @ [y]) = enumerate 0 xs @ [(length xs, y)]"
  by (simp add: enumerate_append_eq)

lemma inner_loop_cells:
  assumes prev: "previous_row = map (spec_cell cost a b i) [0 ..< Suc (length b)]"
    and j: "j \<le> length b"
  shows "foldl (inner_step cost (a ! i) previous_row) [of_nat (i + 1)] (enumerate 0 (take j b))
       = map (spec_cell cost a b (Suc i)) [0 ..< Suc j]"
  using j
proof (induction j)
  case 0
  then show ?case by simp
next
  case (Suc j)
  then have lt: "j < length b" by simp
  have t: "take (Suc j) b = take j b @ [b ! j]"
    using lt by (simp add: take_Suc_conv_app_nth)
  have len: "length (take j b) = j"
    using lt by simp
  have p1: "previous_row ! (j + 1) = spec_cell cost a b i (Suc j)"
    using lt unfolding prev by (simp del: upt_Suc add: nth_map_upt)
  have p0: "previous_row ! j = spec_cell cost a b i j"
    using lt unfolding prev by (simp del: upt_Suc add: nth_map_upt)
  have c: "map (spec_cell cost a b (Suc i)) [0 ..< Suc j] ! j = spec_cell cost a b (Suc i) j"
    by (simp del: upt_Suc add: nth_map_upt)
  have "foldl (inner_step cost (a ! i) previous_row) [of_nat (i + 1)] (enumerate 0 (take (Suc j) b))
      = inner_step cost (a ! i) previous_row (map (spec_cell cost a b (Suc i)) [0 ..< Suc j]) (j, b ! j)"
    using Suc.IH lt by (simp only: t enumerate_snoc foldl_append len) simp
  also have "\<dots> = map (spec_cell cost a b (Suc i)) [0 ..< Suc j] @ [spec_cell cost a b (Suc i) (Suc j)]"
    unfolding inner_step_def by (simp only: prod.case Let_def p1 p0 c spec_cell.simps)
  also have "\<dots> = map (spec_cell cost a b (Suc i)) [0 ..< Suc (Suc j)]"
    by simp
  finally show ?case .
qed

lemma row_step_cells:
  assumes "previous_row = map (spec_cell cost a b i) [0 ..< Suc (length b)]"
  shows "row_step cost b previous_row (i, a ! i) = map (spec_cell cost a b (Suc i)) [0 ..< Suc (length b)]"
  using inner_loop_cells [OF assms, of "length b"] by (simp add: row_step_def)

lemma outer_loop_cells:
  "i \<le> length a \<Longrightarrow>
   foldl (row_step cost b) (map of_nat [0 ..< length b + 1]) (enumerate 0 (take i a))
     = map (spec_cell cost a b i) [0 ..< Suc (length b)]"
proof (induction i)
  case 0
  then show ?case by simp
next
  case (Suc i)
  then have lt: "i < length a" by simp
  have t: "take (Suc i) a = take i a @ [a ! i]"
    using lt by (simp add: take_Suc_conv_app_nth)
  have len: "length (take i a) = i"
    using lt by simp
  show ?case
    using Suc.IH lt
    by (simp only: t enumerate_snoc foldl_append len) (simp add: row_step_cells del: upt_Suc)
qed

lemma length_row_step:
  "length (row_step cost word_dots previous_row ic) = length word_dots + 1"
proof -
  have "length (foldl (inner_step cost c previous_row) cur js) = length cur + length js"
    for c cur and js :: "(nat \<times> dots) list"
    by (induction js arbitrary: cur) (simp_all add: inner_step_def split_beta Let_def)
  then show ?thesis
    by (cases ic) (simp add: row_step_def)
qed

lemma spec_cell_sym:
  "(\<And>p q. cost p q = cost q p) \<Longrightarrow> spec_cell cost a b i j = spec_cell cost b a j i"
proof (induction cost a b i j rule: spec_cell.induct)
  case (1 cost A B j)
  then show ?case by (cases j) simp_all
next
  case (2 cost A B i)
  then show ?case by simp
next
  case (3 cost A B i j)
  then show ?case by (simp add: min.commute min.left_commute)
qed

lemma spec_cell_col0: "spec_cell cost a b i 0 = of_nat i"
  by (cases i) simp_all

lemma levenshtein_rows:
  "length b \<le> length a \<Longrightarrow>
   levenshtein cost a b = spec_cell cost a b (length a) (length b)
       + of_int \<bar>int (length a) - int (length b)\<bar> * (1 / 2)"
  using outer_loop_cells [of "length a" a cost b]
  by (cases "b = []") (simp_all add: levenshtein_def Let_def spec_cell_col0 last_map del: upt_Suc)

lemma levenshtein_eq_cell:
  assumes "\<And>p q. cost p q = cost q p"
  shows "levenshtein cost a b = spec_cell cost a b (length a) (length b)
       + of_int \<bar>int (length a) - int (length b)\<bar> * (1 / 2)"
proof (cases "length a < length b")
  case True
  then have "levenshtein cost a b = levenshtein cost b a"
    by (simp add: levenshtein_def Let_def abs_minus_commute)
  also have "\<dots> = spec_cell cost b a (length b) (length a)
       + of_int \<bar>int (length b) - int (length a)\<bar> * (1 / 2)"
    using True by (intro levenshtein_rows) simp
  finally show ?thesis
    using spec_cell_sym [of cost b a "length b" "length a"] assms
    by (simp add: abs_minus_commute)
next
  case False
  then show ?thesis by (intro levenshtein_rows) simp
qed

lemma normalized_dot_distance_spec:
  "normalized_dot_distance p q = spec_subCost (set p) (set q)"
  by (simp add: normalized_dot_distance_def spec_subCost_def Let_def)

lemma spec_subCost_sym: "spec_subCost P Q = spec_subCost Q P"
  by (simp add: spec_subCost_def Int_commute Un_commute)

lemma spec_subCost_same: "p \<noteq> [] \<Longrightarrow> spec_subCost (set p) (set p) = 0"
  by (simp add: spec_subCost_def card_gt_0_iff)




subsection \<open>Learning\<close>

lemma count_of_learn:
  "count_of (corrections (learn_correction self input_seq w)) key
     = count_of (corrections self) key + (if key = lower w then 1 else 0)"
  by (simp add: learn_correction_def split_beta fst_get_count count_of_def get_count_def
      split: option.splits)

lemma dictionaries_learn: "dictionaries (learn_correction self input_seq w) = dictionaries self"
  by (simp add: learn_correction_def split_beta)



lemma corrections_get_dictionary: "corrections (snd (get_dictionary self language)) = corrections self"
  by (simp add: get_dictionary_def split: option.splits)

lemma corrections_add_word: "corrections (snd (add_word self w language)) = corrections self"
  by (simp add: add_word_def get_dictionary_def Let_def split: option.splits)

lemma add_words_step:
  "snd (add_words self (w # ws) language) =
     (case fst (add_word self w language) of
        Inl e \<Rightarrow> snd (add_word self w language)
      | Inr u \<Rightarrow> snd (add_words (snd (add_word self w language)) ws language))"
  by (cases "add_word self w language") (auto split: sum.splits)

lemma corrections_add_words: "corrections (snd (add_words self ws language)) = corrections self"
  by (induction ws arbitrary: self)
     (simp_all add: add_words_step corrections_add_word del: add_words.simps(2) split: sum.splits)

lemma corrections_contraction_step:
  "corrections (contraction_step language self wd) = corrections self"
  by (simp add: contraction_step_def get_dictionary_def split: option.splits)

lemma load_dictionary_state:
  "snd (load_dictionary self ws language) =
     (case fst (add_words self ws language) of
        Inl e \<Rightarrow> snd (add_words self ws language)
      | Inr u \<Rightarrow>
          if language = ''english''
          then foldl (contraction_step language) (snd (add_words self ws language)) CONTRACTIONS
          else snd (add_words self ws language))"
  by (cases "add_words self ws language") (auto simp: load_dictionary_def split: sum.splits)

lemma corrections_load_dictionary:
  "corrections (snd (load_dictionary self ws language)) = corrections self"
  by (simp add: load_dictionary_state CONTRACTIONS_def corrections_contraction_step
      corrections_add_words split: sum.splits)

lemma count_of_suggest_word:
  "count_of (corrections (snd (suggest_word self input_seq language k))) = count_of (corrections self)"
  using suggest_word_state [of self input_seq language k]
  by (auto simp: count_of_zero_fill)

lemma reachable_counts_nonneg: "reachable self \<Longrightarrow> 0 \<le> count_of (corrections self) key"
proof (induction arbitrary: key rule: reachable.induct)
  case reach_init
  then show ?case by (simp add: init_def count_of_def)
next
  case (reach_add_word self w language)
  then show ?case by (simp add: corrections_add_word)
next
  case (reach_load self ws language)
  then show ?case by (simp add: corrections_load_dictionary)
next
  case (reach_suggest self input_seq language k)
  then show ?case by (simp add: count_of_suggest_word)
next
  case (reach_learn self input_seq w)
  then show ?case by (simp add: count_of_learn)
next
  case (reach_clear self)
  then show ?case by (simp add: count_of_def)
qed



lemma set_dfs:
  "set (fst (dfs input_dots t path ([], corr)))
     = triple_of input_dots (count_of corr) ` set (terminals t path)"
proof -
  have "mset (fst (dfs input_dots t path ([], corr)))
      = mset (map (triple_of input_dots (count_of corr)) (terminals t path))"
    by (simp add: dfs_walk mset_foldl_heappush)
  then have "set (fst (dfs input_dots t path ([], corr)))
      = set (map (triple_of input_dots (count_of corr)) (terminals t path))"
    by (rule mset_eq_setD)
  then show ?thesis by simp
qed




subsection \<open>Ranking\<close>




lemma slice_to_nonneg: "0 \<le> k \<Longrightarrow> slice_to xs k = take (nat k) xs"
  by (simp add: slice_to_def)



subsection \<open>When the distance is zero\<close>

lemma spec_subCost_nonneg: "finite P \<Longrightarrow> finite Q \<Longrightarrow> 0 \<le> spec_subCost P Q"
proof -
  assume f: "finite P" "finite Q"
  have "card (P \<inter> Q) \<le> card (P \<union> Q)"
    using f by (intro card_mono) auto
  then have le: "(of_nat (card (P \<inter> Q)) :: rat) \<le> of_nat (card (P \<union> Q))"
    by simp
  have "(of_nat (card (P \<inter> Q)) :: rat) / of_nat (card (P \<union> Q)) \<le> 1"
  proof (cases "card (P \<union> Q) = 0")
    case True
    then show ?thesis by simp
  next
    case False
    then have "(0 :: rat) < of_nat (card (P \<union> Q))" by simp
    then show ?thesis using le by (simp add: divide_le_eq_1)
  qed
  then show ?thesis
    by (simp add: spec_subCost_def)
qed

lemma normalized_dot_distance_nonneg: "0 \<le> normalized_dot_distance p q"
  by (simp add: normalized_dot_distance_spec spec_subCost_nonneg)

lemma normalized_dot_distance_zero:
  assumes "normalized_dot_distance p q = 0"
  shows "set p = set q"
proof -
  let ?I = "set p \<inter> set q" and ?U = "set p \<union> set q"
  have z: "spec_subCost (set p) (set q) = 0"
    using assms by (simp only: normalized_dot_distance_spec)
  have ne: "?U \<noteq> {}"
  proof
    assume "?U = {}"
    then have "spec_subCost (set p) (set q) = 1"
      unfolding spec_subCost_def by (rule if_P)
    with z show False by simp
  qed
  then have pos: "(of_nat (card ?U) :: rat) \<noteq> 0"
    by simp
  have r: "1 - x / y = 0 \<Longrightarrow> y \<noteq> 0 \<Longrightarrow> x = y" for x y :: rat
    by (simp add: field_simps)
  have "spec_subCost (set p) (set q) = 1 - (of_nat (card ?I) :: rat) / of_nat (card ?U)"
    unfolding spec_subCost_def using ne by (rule if_not_P)
  with z have "1 - (of_nat (card ?I) :: rat) / of_nat (card ?U) = 0"
    by (rule subst [rotated])
  then have "(of_nat (card ?I) :: rat) = of_nat (card ?U)"
    using pos by (rule r)
  then have "card ?I = card ?U"
    by (simp only: of_nat_eq_iff)
  then have "?I = ?U"
    by (intro card_subset_eq) auto
  then show ?thesis
    by blast
qed

lemma normalized_dot_distance_same: "p \<noteq> [] \<Longrightarrow> normalized_dot_distance p p = 0"
  by (simp add: normalized_dot_distance_spec spec_subCost_same)

lemma spec_cell_lower:
  "(\<And>p q. 0 \<le> cost p q) \<Longrightarrow>
   of_nat i - of_nat j \<le> spec_cell cost a b i j \<and> of_nat j - of_nat i \<le> spec_cell cost a b i j"
proof (induction cost a b i j rule: spec_cell.induct)
  case (1 cost A B j)
  then show ?case by simp
next
  case (2 cost A B i)
  then show ?case by simp
next
  case (3 cost A B i j)
  have c: "0 \<le> cost (A ! i) (B ! j)"
    using "3.prems" by simp
  show ?case
    using "3.IH"(1) [OF "3.prems"] "3.IH"(2) [OF "3.prems"] "3.IH"(3) [OF "3.prems"] c
    by (simp add: min_def)
qed

lemma spec_cell_nonneg:
  assumes "\<And>p q. 0 \<le> cost p q"
  shows "0 \<le> spec_cell cost a b i j"
proof (cases "i \<le> j")
  case True
  then have "(0 :: rat) \<le> of_nat j - of_nat i" by simp
  then show ?thesis
    using spec_cell_lower [where cost = cost and i = i and j = j and a = a and b = b, OF assms] by linarith
next
  case False
  then have "(0 :: rat) \<le> of_nat i - of_nat j" by simp
  then show ?thesis
    using spec_cell_lower [where cost = cost and i = i and j = j and a = a and b = b, OF assms] by linarith
qed

lemma spec_cell_diag_zero:
  assumes nn: "\<And>p q. 0 \<le> cost p q"
  shows "spec_cell cost a b i i = 0 \<longleftrightarrow> (\<forall>k<i. cost (a ! k) (b ! k) = 0)"
proof (induction i)
  case 0
  then show ?case by simp
next
  case (Suc i)
  have up: "1 \<le> spec_cell cost a b i (Suc i)"
    using spec_cell_lower [where cost = cost and i = i and j = "Suc i" and a = a and b = b, OF nn] by simp
  have dn: "1 \<le> spec_cell cost a b (Suc i) i"
    using spec_cell_lower [where cost = cost and i = "Suc i" and j = i and a = a and b = b, OF nn] by simp
  have d: "0 \<le> spec_cell cost a b i i"
    using nn by (rule spec_cell_nonneg)
  have c: "0 \<le> cost (a ! i) (b ! i)"
    using nn by simp
  have "spec_cell cost a b (Suc i) (Suc i) = 0
      \<longleftrightarrow> spec_cell cost a b i i = 0 \<and> cost (a ! i) (b ! i) = 0"
    using up dn d c by (auto simp: min_def)
  then show ?case
    using Suc.IH by (auto simp: less_Suc_eq)
qed

lemma levenshtein_distance_cell:
  "levenshtein_distance a b = spec_cell normalized_dot_distance a b (length a) (length b)
       + of_int \<bar>int (length a) - int (length b)\<bar> * (1 / 2)"
  unfolding levenshtein_distance_def
  by (rule levenshtein_eq_cell) (simp add: normalized_dot_distance_spec spec_subCost_sym)

lemma levenshtein_distance_nonneg: "0 \<le> levenshtein_distance a b"
  using spec_cell_nonneg [of normalized_dot_distance a b "length a" "length b"]
  by (simp add: levenshtein_distance_cell normalized_dot_distance_nonneg)

lemma levenshtein_distance_same:
  assumes "\<forall>p \<in> set a. p \<noteq> []"
  shows "levenshtein_distance a a = 0"
proof -
  have "\<forall>k<length a. normalized_dot_distance (a ! k) (a ! k) = 0"
    using assms by (simp add: normalized_dot_distance_same)
  then have "spec_cell normalized_dot_distance a a (length a) (length a) = 0"
    by (simp add: spec_cell_diag_zero normalized_dot_distance_nonneg)
  then show ?thesis
    by (simp add: levenshtein_distance_cell)
qed

lemma levenshtein_distance_zero:
  assumes "levenshtein_distance a b = 0"
  shows "length a = length b \<and> (\<forall>k<length a. set (a ! k) = set (b ! k))"
proof -
  have c: "0 \<le> spec_cell normalized_dot_distance a b (length a) (length b)"
    by (rule spec_cell_nonneg) (rule normalized_dot_distance_nonneg)
  have p: "(0 :: rat) \<le> of_int \<bar>int (length a) - int (length b)\<bar> * (1 / 2)"
    by simp
  from assms c p have z: "spec_cell normalized_dot_distance a b (length a) (length b) = 0"
    and "(of_int \<bar>int (length a) - int (length b)\<bar> * (1 / 2) :: rat) = 0"
    unfolding levenshtein_distance_cell by linarith+
  then have len: "length a = length b"
    by simp
  have "\<forall>k<length a. normalized_dot_distance (a ! k) (b ! k) = 0"
    using z len by (simp add: spec_cell_diag_zero normalized_dot_distance_nonneg)
  then show ?thesis
    using len normalized_dot_distance_zero by blast
qed

subsection \<open>Parsed patterns\<close>

lemma split_on_not_Nil: "split_on sep cur s \<noteq> []"
  by (induction s arbitrary: cur) auto

lemma keys_to_dots_shape:
  assumes "keys \<noteq> []" and "keys_to_dots keys = Inr d"
  shows "d \<noteq> [] \<and> sorted_wrt (<) d"
proof -
  let ?ks = "set (split_plus keys)"
  let ?sel = "filter (\<lambda>(dot, key). key \<in> ?ks) DOT_TO_KEY"
  have sub: "?ks \<subseteq> valid_keys"
    using assms by (simp add: keys_to_dots_def Let_def split: if_splits)
  have d: "d = sort (map fst ?sel)"
    using assms sub by (simp add: keys_to_dots_def Let_def)
  have "split_plus keys \<noteq> []"
    by (simp add: split_plus_def split_on_not_Nil)
  then obtain key where key: "key \<in> ?ks"
    by (cases "split_plus keys") auto
  then have "key \<in> snd ` set DOT_TO_KEY"
    using sub by (auto simp: valid_keys_def)
  then obtain dot where "(dot, key) \<in> set DOT_TO_KEY"
    by force
  then have "(dot, key) \<in> set ?sel"
    using key by simp
  then have "?sel \<noteq> []"
    by (metis empty_iff empty_set)
  then have ne: "d \<noteq> []"
    unfolding d by (metis length_0_conv length_map length_sort)
  have "distinct (map fst DOT_TO_KEY)"
    by (simp add: DOT_TO_KEY_def)
  then have "distinct (map fst ?sel)"
    by (rule distinct_map_filter)
  then have "sorted_wrt (<) d"
    unfolding d by (simp add: strict_sorted_iff)
  with ne show ?thesis
    by simp
qed

lemma comprehension_Inr:
  "comprehension f xs = Inr ys \<Longrightarrow> list_all2 (\<lambda>x y. f x = Inr y) xs ys"
  by (induction xs arbitrary: ys) (auto split: sum.splits)

lemma list_all2_right:
  "list_all2 P xs ys \<Longrightarrow> y \<in> set ys \<Longrightarrow> \<exists>x \<in> set xs. P x y"
  by (induction rule: list_all2_induct) auto

lemma input_to_braille_shape:
  assumes "input_to_braille input_seq = Inr input_dots"
  shows "\<forall>p \<in> set input_dots. p \<noteq> [] \<and> sorted_wrt (<) p"
proof
  fix p
  assume "p \<in> set input_dots"
  moreover have "list_all2 (\<lambda>x y. keys_to_dots x = Inr y) (str_split input_seq) input_dots"
    using assms unfolding input_to_braille_def by (rule comprehension_Inr)
  ultimately obtain t where t: "t \<in> set (str_split input_seq)" "keys_to_dots t = Inr p"
    using list_all2_right by force
  then have "t \<noteq> []"
    using split_ws_nonempty by (metis str_split_def)
  then show "p \<noteq> [] \<and> sorted_wrt (<) p"
    using t(2) by (rule keys_to_dots_shape)
qed

lemma strict_sorted_set_eq:
  "sorted_wrt (<) (p :: nat list) \<Longrightarrow> sorted_wrt (<) q \<Longrightarrow> set p = set q \<Longrightarrow> p = q"
  by (simp add: strict_sorted_iff sorted_distinct_set_unique)

lemma sort_least_first:
  assumes "x \<in> set xs" and "\<forall>y \<in> set xs. x \<le> y"
  shows "\<exists>rest. sort xs = x # rest"
proof -
  have "sort xs \<noteq> []"
    using assms(1) by (metis empty_iff empty_set set_sort)
  then obtain h rest where h: "sort xs = h # rest"
    by (cases "sort xs") auto
  have "sorted (h # rest)"
    using h by (metis sorted_sort)
  moreover have "x \<in> set (h # rest)"
    using assms(1) h by (metis set_sort)
  ultimately have "h \<le> x"
    by auto
  moreover have "h \<in> set xs"
    using h by (metis list.set_intros(1) set_sort)
  ultimately have "h = x"
    using assms(2) by (simp add: order.antisym)
  then show ?thesis
    using h by simp
qed

subsection \<open>The shape of the tries of a reachable object\<close>

lemma wf_children_iff:
  "wf_children cs \<longleftrightarrow> (\<forall>(d, c) \<in> set cs. sorted_wrt (<) d \<and> wf_trie c)"
  by (induction cs) auto

lemma wf_children_update:
  "wf_children cs \<Longrightarrow> sorted_wrt (<) d \<Longrightarrow> wf_trie c \<Longrightarrow> wf_children (AList.update d c cs)"
  by (induction cs) auto

lemma wf_children_map_of: "wf_children cs \<Longrightarrow> map_of cs d = Some c \<Longrightarrow> wf_trie c"
  using map_of_SomeD wf_children_iff by fastforce

lemma wf_new_node: "wf_trie new_node" "root_plain new_node"
  by (simp_all add: new_node_def root_plain_def)

lemma wf_insert_path:
  "wf_trie t \<Longrightarrow> \<forall>d \<in> set ds. sorted_wrt (<) d \<Longrightarrow> wf_trie (insert_path ds w t)"
proof (induction ds arbitrary: t)
  case Nil
  then show ?case by (cases t) simp
next
  case (Cons d ds)
  obtain cs e wd where t: "t = TrieNode cs e wd" by (cases t)
  let ?child = "case map_of cs d of None \<Rightarrow> new_node | Some child \<Rightarrow> child"
  have "wf_trie ?child"
    using Cons.prems(1) t by (auto simp: wf_new_node wf_children_map_of split: option.splits)
  then have "wf_trie (insert_path ds w ?child)"
    using Cons.prems(2) by (intro Cons.IH) simp_all
  then show ?case
    using Cons.prems t by (simp add: wf_children_update distinct_update)
qed

lemma root_plain_insert_path:
  "root_plain t \<Longrightarrow> (ds = [] \<longrightarrow> w = []) \<Longrightarrow> root_plain (insert_path ds w t)"
  by (cases t; cases ds) (simp_all add: root_plain_def)

lemma update_absent: "map_of cs d = None \<Longrightarrow> AList.update d v cs = cs @ [(d, v)]"
  by (induction cs) (auto split: if_splits)

lemma update_last: "map_of cs d = None \<Longrightarrow> AList.update d v (cs @ [(d, u)]) = cs @ [(d, v)]"
  by (induction cs) (auto split: if_splits)

lemma map_of_snoc: "map_of cs d = None \<Longrightarrow> map_of (cs @ [(d, v)]) d = Some v"
  by (induction cs) (auto split: if_splits)

lemma add_contraction_insert_path: "add_contraction node (w, dots) = insert_path [dots] w node"
proof -
  obtain cs e wd where t: "node = TrieNode cs e wd" by (cases node)
  show ?thesis
  proof (cases "map_of cs dots")
    case None
    have "map_of (cs @ [(dots, new_node)]) dots = Some new_node"
      using None by (rule map_of_snoc)
    then show ?thesis
      using t None
      by (simp add: add_contraction_def Let_def update_absent update_last del: map_of_append)
         (simp add: new_node_def)
  next
    case (Some c)
    obtain cs' e' wd' where c: "c = TrieNode cs' e' wd'" by (cases c)
    show ?thesis
      using t Some c by (simp add: add_contraction_def Let_def)
  qed
qed

lemma table_sorted: "\<forall>(c, d) \<in> set ENGLISH_BRAILLE. sorted_wrt (<) d"
  by (simp add: ENGLISH_BRAILLE_def)

lemma char_dots_sorted:
  assumes "map_of braille_maps language = Some table"
  shows "sorted_wrt (<) (char_dots table c)"
proof -
  have table: "table = ENGLISH_BRAILLE"
    using assms by (auto simp: braille_maps_def FRENCH_BRAILLE_def split: if_splits)
  show ?thesis
  proof (cases "map_of table c")
    case None
    then show ?thesis by (simp add: char_dots_def)
  next
    case (Some d)
    then have "(c, d) \<in> set ENGLISH_BRAILLE"
      unfolding table by (rule map_of_SomeD)
    then show ?thesis
      using table_sorted Some by (auto simp: char_dots_def)
  qed
qed

lemma wf_state_init: "wf_state init"
  by (simp add: wf_state_def init_def)

lemma wf_state_trie_of: "wf_state self \<Longrightarrow> wf_trie (trie_of self l) \<and> root_plain (trie_of self l)"
  by (auto simp: wf_state_def trie_of_def wf_new_node split: option.splits)

lemma wf_state_store:
  "wf_state self \<Longrightarrow> wf_trie t \<Longrightarrow> root_plain t \<Longrightarrow>
   wf_state (self\<lparr>dictionaries := (dictionaries self)(l \<mapsto> t)\<rparr>)"
  by (simp add: wf_state_def)

lemma wf_state_corrections: "wf_state (self\<lparr>corrections := c\<rparr>) = wf_state self"
  by (simp add: wf_state_def)

lemma lower_Nil_iff: "lower w = [] \<longleftrightarrow> w = []"
  by (simp add: lower_def)

lemma wf_state_add_word:
  assumes "wf_state self"
  shows "wf_state (snd (add_word self w language))"
proof -
  let ?node = "trie_of self language"
  let ?self1 = "self\<lparr>dictionaries := (dictionaries self)(language \<mapsto> ?node)\<rparr>"
  have node: "wf_trie ?node" "root_plain ?node"
    using assms wf_state_trie_of by blast+
  have s1: "wf_state ?self1"
    using assms node by (rule wf_state_store)
  show ?thesis
  proof (cases "lower w = []")
    case True
    then have "w = []" by (simp add: lower_Nil_iff)
    then have a: "wf_trie (insert_path [] w ?node)" and b: "root_plain (insert_path [] w ?node)"
      using node by (simp_all add: wf_insert_path root_plain_insert_path)
    have "wf_state (?self1\<lparr>dictionaries := (dictionaries ?self1)
        (language \<mapsto> insert_path [] w ?node)\<rparr>)"
      by (rule wf_state_store [OF s1 a b])
    then show ?thesis
      using True by (simp add: add_word_def get_dictionary_eq)
  next
    case False
    show ?thesis
    proof (cases "map_of braille_maps language")
      case None
      then show ?thesis
        using False s1 by (simp add: add_word_def get_dictionary_eq)
    next
      case (Some table)
      let ?path = "map (char_dots table) (lower w)"
      have "\<forall>d \<in> set ?path. sorted_wrt (<) d"
        using char_dots_sorted [OF Some] by simp
      then have a: "wf_trie (insert_path ?path w ?node)"
        using node(1) by (intro wf_insert_path)
      have "?path \<noteq> []"
        using False by simp
      then have b: "root_plain (insert_path ?path w ?node)"
        using node(2) by (intro root_plain_insert_path) simp_all
      have "wf_state (?self1\<lparr>dictionaries := (dictionaries ?self1)
          (language \<mapsto> insert_path ?path w ?node)\<rparr>)"
        using s1 a b by (rule wf_state_store)
      then show ?thesis
        using False Some by (simp add: add_word_def get_dictionary_eq)
    qed
  qed
qed

lemma wf_state_add_words: "wf_state self \<Longrightarrow> wf_state (snd (add_words self ws language))"
  by (induction ws arbitrary: self)
     (simp_all add: add_words_step wf_state_add_word del: add_words.simps(2) split: sum.splits)

lemma wf_state_contraction_step:
  assumes "wf_state self" and "sorted_wrt (<) (snd wd)"
  shows "wf_state (contraction_step language self wd)"
proof -
  obtain w dots where wd: "wd = (w, dots)" by (cases wd)
  let ?node = "trie_of self language"
  let ?self1 = "self\<lparr>dictionaries := (dictionaries self)(language \<mapsto> ?node)\<rparr>"
  have node: "wf_trie ?node" "root_plain ?node"
    using assms(1) wf_state_trie_of by blast+
  have s1: "wf_state ?self1"
    using assms(1) node by (rule wf_state_store)
  have a: "wf_trie (insert_path [dots] w ?node)"
    using node(1) assms(2) wd by (intro wf_insert_path) simp_all
  have b: "root_plain (insert_path [dots] w ?node)"
    using node(2) by (intro root_plain_insert_path) simp_all
  have "wf_state (?self1\<lparr>dictionaries := (dictionaries ?self1)
      (language \<mapsto> insert_path [dots] w ?node)\<rparr>)"
    by (rule wf_state_store [OF s1 a b])
  then show ?thesis
    by (simp add: contraction_step_def get_dictionary_eq wd add_contraction_insert_path)
qed

lemma wf_state_load_dictionary:
  "wf_state self \<Longrightarrow> wf_state (snd (load_dictionary self ws language))"
  by (simp add: load_dictionary_state CONTRACTIONS_def wf_state_contraction_step
      wf_state_add_words split: sum.splits)

lemma wf_state_suggest_word:
  assumes "wf_state self"
  shows "wf_state (snd (suggest_word self input_seq language k))"
proof -
  have "wf_trie (trie_of self language)" "root_plain (trie_of self language)"
    using assms wf_state_trie_of by blast+
  with assms
  have "wf_state (self\<lparr>dictionaries := (dictionaries self)(language \<mapsto> trie_of self language)\<rparr>)"
    by (rule wf_state_store)
  then have "wf_state (self\<lparr>dictionaries := (dictionaries self)(language \<mapsto> trie_of self language),
      corrections := c\<rparr>)" for c
    by (simp add: wf_state_def)
  then show ?thesis
    using suggest_word_state [of self input_seq language k] assms by auto
qed

lemma reachable_wf_state: "reachable self \<Longrightarrow> wf_state self"
proof (induction rule: reachable.induct)
  case reach_init
  then show ?case by (rule wf_state_init)
next
  case (reach_add_word self w language)
  then show ?case by (simp add: wf_state_add_word)
next
  case (reach_load self ws language)
  then show ?case by (simp add: wf_state_load_dictionary)
next
  case (reach_suggest self input_seq language k)
  then show ?case by (simp add: wf_state_suggest_word)
next
  case (reach_learn self input_seq w)
  then show ?case by (simp add: wf_state_def dictionaries_learn)
next
  case (reach_clear self)
  then show ?case by (simp add: wf_state_def)
qed

subsection \<open>Paths of candidates\<close>

lemma terminals_paths:
  "(B, v) \<in> set (terminals t p) \<Longrightarrow> wf_trie t \<Longrightarrow>
     \<exists>B'. B = p @ B' \<and> (\<forall>q \<in> set B'. sorted_wrt (<) q) \<and> (B' = [] \<longrightarrow> word t = Some v \<and> v \<noteq> [])"
  "(B, v) \<in> set (terminals_children cs p) \<Longrightarrow> wf_children cs \<Longrightarrow>
     \<exists>d B'. B = p @ d # B' \<and> d \<in> fst ` set cs \<and> (\<forall>q \<in> set (d # B'). sorted_wrt (<) q)"
proof (induction t p and cs p rule: terminals_terminals_children.induct)
  case (1 cs e wd path)
  show ?case
  proof (cases "(B, v) \<in> set (terminals_children cs path)")
    case True
    then obtain d B' where "B = path @ d # B'" "\<forall>q \<in> set (d # B'). sorted_wrt (<) q"
      using "1.IH" "1.prems"(2) by auto
    then show ?thesis by auto
  next
    case False
    then have "B = path \<and> wd = Some v \<and> v \<noteq> []"
      using "1.prems"(1) by (auto split: option.splits if_splits)
    then show ?thesis by simp
  qed
next
  case (2 path)
  then show ?case by simp
next
  case (3 d child rest path)
  show ?case
  proof (cases "(B, v) \<in> set (terminals child (path @ [d]))")
    case True
    then obtain B' where "B = (path @ [d]) @ B'" "\<forall>q \<in> set B'. sorted_wrt (<) q"
      using "3.IH"(1) "3.prems"(2) by auto
    then show ?thesis
      using "3.prems"(2) by auto
  next
    case False
    then have "(B, v) \<in> set (terminals_children rest path)"
      using "3.prems"(1) by simp
    then obtain d' B' where "B = path @ d' # B'" "d' \<in> fst ` set rest"
        "\<forall>q \<in> set (d' # B'). sorted_wrt (<) q"
      using "3.IH"(2) "3.prems"(2) by auto
    then show ?thesis by auto
  qed
qed

lemma terminals_unique:
  "wf_trie t \<Longrightarrow> (B, v) \<in> set (terminals t p) \<Longrightarrow> (B, v') \<in> set (terminals t p) \<Longrightarrow> v = v'"
  "wf_children cs \<Longrightarrow> distinct (map fst cs) \<Longrightarrow> (B, v) \<in> set (terminals_children cs p) \<Longrightarrow>
     (B, v') \<in> set (terminals_children cs p) \<Longrightarrow> v = v'"
proof (induction t p and cs p rule: terminals_terminals_children.induct)
  case (1 cs e wd path)
  have wf: "wf_children cs" "distinct (map fst cs)"
    using "1.prems"(1) by simp_all
  have below: "B \<noteq> path" if "(B, u) \<in> set (terminals_children cs path)" for u
    using terminals_paths(2) [OF that wf(1)] by auto
  have own: "wd = Some u" if "(B, u) \<in> set (terminals (TrieNode cs e wd) path)"
      "(B, u) \<notin> set (terminals_children cs path)" for u
    using that by (auto split: option.splits if_splits)
  have eq: "B = path" if "(B, u) \<in> set (terminals (TrieNode cs e wd) path)"
      "(B, u) \<notin> set (terminals_children cs path)" for u
    using that by (auto split: option.splits if_splits)
  show ?case
  proof (cases "(B, v) \<in> set (terminals_children cs path)")
    case True
    then have "(B, v') \<in> set (terminals_children cs path)"
      using below eq "1.prems"(3) by blast
    then show ?thesis
      using "1.IH" wf True by blast
  next
    case False
    then have "(B, v') \<notin> set (terminals_children cs path)"
      using below eq "1.prems"(2) by blast
    then show ?thesis
      using own False "1.prems"(2,3) by fastforce
  qed
next
  case (2 path)
  then show ?case by simp
next
  case (3 d child rest path)
  have wf: "wf_trie child" "wf_children rest" "distinct (map fst rest)" "d \<notin> fst ` set rest"
    using "3.prems"(1,2) by auto
  have left: "\<exists>B'. B = path @ d # B'" if "(B, u) \<in> set (terminals child (path @ [d]))" for u
    using terminals_paths(1) [OF that wf(1)] by auto
  have right: "\<exists>d' B'. B = path @ d' # B' \<and> d' \<noteq> d"
    if "(B, u) \<in> set (terminals_children rest path)" for u
    using terminals_paths(2) [OF that wf(2)] wf(4) by auto
  have excl: "\<not> ((B, u) \<in> set (terminals child (path @ [d]))
      \<and> (B, u') \<in> set (terminals_children rest path))" for u u'
    using left right by fastforce
  show ?case
  proof (cases "(B, v) \<in> set (terminals child (path @ [d]))")
    case True
    then have "(B, v') \<in> set (terminals child (path @ [d]))"
      using excl "3.prems"(4) by auto
    then show ?thesis
      using "3.IH"(1) wf(1) True by blast
  next
    case False
    then have a: "(B, v) \<in> set (terminals_children rest path)"
      using "3.prems"(3) by simp
    then have "(B, v') \<in> set (terminals_children rest path)"
      using excl "3.prems"(4) by auto
    then show ?thesis
      using "3.IH"(2) wf(2,3) a by blast
  qed
qed

subsection \<open>An exact match ranks first\<close>

text \<open>C1. For an object a caller can hold, an input that parses to the sequence of
  patterns on the path of a candidate word \<open>w\<close> of the language's trie, no positive count
  and a limit of at least one: the distance of the input to that path is zero, so the
  triple of \<open>w\<close> is \<open>(0, 0, w)\<close>; no recorded score is negative, and every other
  recorded triple has a positive score; \<open>w\<close> is the first word returned, and
  \<open>process_input\<close> returns exactly \<open>[w]\<close>.\<close>

theorem exact_match_ranks_first:
  assumes "reachable self"
    and "input_to_braille input_seq = Inr input_dots"
    and "(input_dots, w) \<in> set (terminals (trie_of self language) [])"
    and "\<forall>key. count_of (corrections self) key \<le> 0"
    and "1 \<le> k"
  shows "levenshtein_distance input_dots input_dots = 0
    \<and> (0, 0, w) \<in> set (fst (dfs input_dots (trie_of self language) [] ([], corrections self)))
    \<and> (\<forall>x \<in> set (fst (dfs input_dots (trie_of self language) [] ([], corrections self))).
          0 \<le> fst x \<and> (x \<noteq> (0, 0, w) \<longrightarrow> 0 < fst x))
    \<and> (\<exists>rest. fst (suggest_word self input_seq language k) = Inr (w # rest))
    \<and> fst (process_input self input_seq language) = Inr [w]"
proof -
  let ?root = "trie_of self language"
  let ?cnt = "count_of (corrections self)"
  let ?triples = "map (triple_of input_dots ?cnt) (terminals ?root [])"
  have wf: "wf_trie ?root" "root_plain ?root"
    using reachable_wf_state [OF assms(1)] wf_state_trie_of by blast+
  have shape: "\<forall>p \<in> set input_dots. p \<noteq> [] \<and> sorted_wrt (<) p"
    using assms(2) by (rule input_to_braille_shape)
  have "input_dots = [] \<longrightarrow> word ?root = Some w \<and> w \<noteq> []"
    using terminals_paths(1) [OF assms(3) wf(1)] by auto
  then have ne: "input_dots \<noteq> []"
    using wf(2) by (auto simp: root_plain_def)
  have zero: "?cnt key = 0" for key
    using assms(4) reachable_counts_nonneg [OF assms(1), of key] by (simp add: order.antisym)
  have tr: "triple_of input_dots ?cnt (B, v)
      = (levenshtein_distance input_dots B, levenshtein_distance input_dots B, v)" for B v
    by (simp add: triple_of_def zero)
  have same: "levenshtein_distance input_dots input_dots = 0"
    using shape by (intro levenshtein_distance_same) simp
  have mem: "(0, 0, w) \<in> set ?triples"
    using assms(3) tr [of input_dots w] same by force
  have other: "0 \<le> fst x \<and> (x \<noteq> (0, 0, w) \<longrightarrow> 0 < fst x)" if "x \<in> set ?triples" for x
  proof -
    from that obtain B v where Bv: "(B, v) \<in> set (terminals ?root [])"
        and x: "x = (levenshtein_distance input_dots B, levenshtein_distance input_dots B, v)"
      using tr by auto
    have nn: "0 \<le> levenshtein_distance input_dots B"
      by (rule levenshtein_distance_nonneg)
    have "x = (0, 0, w)" if z: "levenshtein_distance input_dots B = 0"
    proof -
      have len: "length input_dots = length B"
        and sets: "\<forall>k<length input_dots. set (input_dots ! k) = set (B ! k)"
        using levenshtein_distance_zero [OF z] by simp_all
      have sortedB: "\<forall>q \<in> set B. sorted_wrt (<) q"
        using terminals_paths(1) [OF Bv wf(1)] by auto
      have "input_dots ! k = B ! k" if "k < length input_dots" for k
      proof -
        have "sorted_wrt (<) (input_dots ! k)"
          using shape that by simp
        moreover have "sorted_wrt (<) (B ! k)"
          using sortedB that len by simp
        moreover have "set (input_dots ! k) = set (B ! k)"
          using sets that by simp
        ultimately show ?thesis
          by (rule strict_sorted_set_eq)
      qed
      then have "input_dots = B"
        using len by (intro nth_equalityI) simp_all
      then have "v = w"
        using terminals_unique(1) [OF wf(1) _ assms(3)] Bv by simp
      then show ?thesis
        using x z by simp
    qed
    then show ?thesis
      using nn x by (cases "levenshtein_distance input_dots B = 0") auto
  qed
  have least: "\<forall>y \<in> set ?triples. (0, 0, w) \<le> y"
  proof
    fix y
    assume y: "y \<in> set ?triples"
    show "(0, 0, w) \<le> y"
    proof (cases "y = (0, 0, w)")
      case True
      then show ?thesis by simp
    next
      case False
      then have "0 < fst y"
        using other [OF y] by simp
      then show ?thesis
        by (cases y) simp
    qed
  qed
  obtain rest where srt: "sort ?triples = (0, 0, w) # rest"
    using sort_least_first [OF mem least] by blast
  have pos: "0 < nat k" "0 \<le> k"
    using assms(5) by simp_all
  have take: "take (nat k) ((0, 0, w) # rest) = (0, 0, w) # take (nat k - 1) rest"
    using pos(1) by (cases "nat k") simp_all
  have res: "fst (suggest_word self input_seq language k)
      = Inr (w # map (\<lambda>(score, dist, w). w) (take (nat k - 1) rest))"
    by (simp add: suggest_word_eq [OF assms(2) ne] srt slice_to_nonneg [OF pos(2)] take)
  have res1: "fst (process_input self input_seq language) = Inr [w]"
    by (simp add: process_input_def suggest_word_eq [OF assms(2) ne] srt slice_to_def)
  have st: "set (fst (dfs input_dots ?root [] ([], corrections self))) = set ?triples"
    by (simp add: set_dfs)
  show ?thesis
    unfolding st using same mem other res res1 by blast
qed

theorem exact_match_ranks_first_witness:
  "input_to_braille ''D+K D W+Q+K+O'' = Inr [[1, 4], [1], [2, 3, 4, 5]]
   \<and> levenshtein_distance [[1, 4], [1], [2, 3, 4, 5]] [[1, 4], [1], [2, 3, 4, 5]] = 0
   \<and> fst (process_input example_english ''D+K D W+Q+K+O'' ''english'') = Inr [''cat'']"
proof -
  have r: "reachable example_english"
    unfolding example_english_def by (rule reach_load [OF reach_init])
  have i: "input_to_braille ''D+K D W+Q+K+O'' = Inr [[1, 4], [1], [2, 3, 4, 5]]"
    by code_simp
  have t: "([[1, 4], [1], [2, 3, 4, 5]], ''cat'') \<in> set (terminals (trie_of example_english ''english'') [])"
    by code_simp
  have "corrections example_english = Map.empty"
    by (simp add: example_english_def corrections_load_dictionary init_def)
  then have c: "\<forall>key. count_of (corrections example_english) key \<le> 0"
    by (simp add: count_of_def)
  have k: "(1 :: int) \<le> 1"
    by simp
  note th = exact_match_ranks_first [OF r i t c k]
  from th have "levenshtein_distance [[1, 4], [1], [2, 3, 4, 5]] [[1, 4], [1], [2, 3, 4, 5]] = 0"
    by blast
  moreover from th have "fst (process_input example_english ''D+K D W+Q+K+O'' ''english'') = Inr [''cat'']"
    by blast
  ultimately show ?thesis
    using i by blast
qed

end
